theory Spec2Isabelle
  imports Main "HOL-Library.Word"
begin

unbundle bit_operations_syntax

section \<open>Data model of the spatial cache (CacheProvider.cpp)\<close>

text \<open>
  The typedefs \<open>coord\<close>, \<open>dimension\<close>, \<open>obj_id\<close> and \<open>owner_id\<close> live in a header
  that is not among the sources. Coordinates and dimensions are taken as mathematical
  integers (the code only adds, subtracts and compares them), identifiers as natural
  numbers (the code only compares them with each other and with 0).
\<close>

type_synonym coord = int
type_synonym dimension = int
type_synonym obj_id = nat
type_synonym owner_id = nat
type_synonym thread_id = nat

text \<open>
  \<open>base_obj\<close> carries \<open>id\<close> and \<open>owner\<close>; \<open>map_obj\<close> extends it by the rectangle
  \<open>x, y, width, height\<close>. The fields are prefixed here because \<open>id\<close>, \<open>x\<close> and
  \<open>y\<close> are taken in HOL. \<open>is_updatable\<close> says whether
  \<^verbatim>\<open>dynamic_cast<updatable*>(object)\<close> succeeds.
\<close>

record base_obj =
  obj_id :: obj_id
  owner :: owner_id
  is_updatable :: bool

record map_obj = base_obj +
  obj_x :: coord
  obj_y :: coord
  obj_width :: dimension
  obj_height :: dimension

text \<open>
  What a \<^verbatim>\<open>base_obj*\<close> can point to: a plain object, or a positioned one
  (for which \<^verbatim>\<open>dynamic_cast<map_obj*>\<close> succeeds).
\<close>

datatype obj = Plain base_obj | Located map_obj

text \<open>
  The indices store raw pointers. A pointer is its address together with the object
  found there; the cache never writes through these pointers. Pointer comparison
  (\<^verbatim>\<open>std::find\<close> over a vector of pointers) compares addresses.
\<close>

datatype 'a ptr = Ptr (address: nat) (deref: 'a)

fun id_of :: "obj \<Rightarrow> obj_id" where
  "id_of (Plain b) = obj_id b"
| "id_of (Located m) = obj_id m"

fun owner_of :: "obj \<Rightarrow> owner_id" where
  "owner_of (Plain b) = owner b"
| "owner_of (Located m) = owner m"

fun updatable_of :: "obj \<Rightarrow> bool" where
  "updatable_of (Plain b) = is_updatable b"
| "updatable_of (Located m) = is_updatable m"

text \<open>The implicit upcast from \<^verbatim>\<open>map_obj*\<close> to \<^verbatim>\<open>base_obj*\<close>.\<close>

definition upcast :: "map_obj ptr \<Rightarrow> obj ptr" where
  "upcast p = Ptr (address p) (Located (deref p))"

text \<open>
  The cache: the bounds, the lock bookkeeping and the four indices. \<open>mtx_owner\<close> and
  \<open>mtx_depth\<close> are the state of the recursive mutex \<open>mtx\<close>; \<open>lock_holder\<close> is the
  field of that name, \<open>None\<close> standing for the default \<^verbatim>\<open>thread::id()\<close>.
  \<open>loc_idx\<close> is the two-level map \<^verbatim>\<open>loc_idx[x][y]\<close>, a missing entry and a null
  pointer both being \<open>None\<close>.
\<close>

record cache_provider =
  start_x :: coord
  start_y :: coord
  end_x :: coord
  end_y :: coord
  area_width :: dimension
  area_height :: dimension
  los_radius :: dimension
  mtx_owner :: "thread_id option"
  mtx_depth :: nat
  lock_holder :: "thread_id option"
  id_idx :: "obj_id \<Rightarrow> obj ptr option"
  owner_idx :: "owner_id \<Rightarrow> obj ptr list option"
  updatable_idx :: "obj ptr list"
  loc_idx :: "coord \<Rightarrow> coord \<Rightarrow> map_obj ptr option"

datatype cache_error = PlacementConflict | SynchronizationViolation

section \<open>Loops\<close>

text \<open>
  \<^verbatim>\<open>for (i = a; i < n; i++) body\<close> as recursion on the counter: \<open>for_loop\<close> threads
  a state through the body, \<open>search_loop\<close> is the loop whose body may leave the
  function early (\<^verbatim>\<open>return\<close> inside the loop).
\<close>

function for_loop :: "int \<Rightarrow> int \<Rightarrow> (int \<Rightarrow> 's \<Rightarrow> 's) \<Rightarrow> 's \<Rightarrow> 's" where
  "for_loop i n body s = (if i < n then for_loop (i + 1) n body (body i s) else s)"
  by pat_completeness auto
termination
  by (relation "measure (\<lambda>(i, n, body, s). nat (n - i))") auto

declare for_loop.simps [simp del]

function search_loop :: "int \<Rightarrow> int \<Rightarrow> (int \<Rightarrow> bool) \<Rightarrow> bool" where
  "search_loop i n hit = (if i < n then (if hit i then True else search_loop (i + 1) n hit) else False)"
  by pat_completeness auto
termination
  by (relation "measure (\<lambda>(i, n, hit). nat (n - i))") auto

declare search_loop.simps [simp del]

section \<open>The cache operations\<close>

definition set_bounds ::
  "coord \<Rightarrow> coord \<Rightarrow> dimension \<Rightarrow> dimension \<Rightarrow> dimension \<Rightarrow> cache_provider \<Rightarrow> cache_provider" where
  "set_bounds sx sy w h r c =
     c\<lparr>start_x := sx, start_y := sy, end_x := sx + w, end_y := sy + h,
       area_width := w, area_height := h, los_radius := r\<rparr>"

text \<open>The constructor: empty indices, an unlocked mutex, then \<open>set_bounds\<close>.\<close>

definition new_cache :: "coord \<Rightarrow> coord \<Rightarrow> dimension \<Rightarrow> dimension \<Rightarrow> dimension \<Rightarrow> cache_provider" where
  "new_cache sx sy w h r =
     set_bounds sx sy w h r
       \<lparr>start_x = 0, start_y = 0, end_x = 0, end_y = 0, area_width = 0, area_height = 0,
        los_radius = 0, mtx_owner = None, mtx_depth = 0, lock_holder = None,
        id_idx = (\<lambda>_. None), owner_idx = (\<lambda>_. None), updatable_idx = [],
        loc_idx = (\<lambda>_ _. None)\<rparr>"

text \<open>
  \<open>lock\<close> and \<open>unlock\<close>, called by thread \<open>t\<close>. \<open>mtx.lock()\<close> returns once the
  recursive mutex is free or already owned by \<open>t\<close>; while another thread owns it the
  call does not return, which is the value \<open>None\<close>. \<open>mtx.unlock()\<close> by a thread that
  does not own the mutex is undefined in C++ and is \<open>None\<close> as well.
\<close>

definition lock :: "thread_id \<Rightarrow> cache_provider \<Rightarrow> cache_provider option" where
  "lock t c =
     (if mtx_owner c = None \<or> mtx_owner c = Some t
      then Some (c\<lparr>mtx_owner := Some t, mtx_depth := Suc (mtx_depth c), lock_holder := Some t\<rparr>)
      else None)"

definition unlock :: "thread_id \<Rightarrow> cache_provider \<Rightarrow> cache_provider option" where
  "unlock t c =
     (if mtx_owner c = Some t \<and> 0 < mtx_depth c
      then Some (c\<lparr>lock_holder := None, mtx_depth := mtx_depth c - 1,
                   mtx_owner := (if mtx_depth c = 1 then None else Some t)\<rparr>)
      else None)"

definition begin_update ::
  "thread_id \<Rightarrow> coord \<Rightarrow> coord \<Rightarrow> dimension \<Rightarrow> dimension \<Rightarrow> cache_provider \<Rightarrow> cache_provider option" where
  "begin_update t x y w h c = lock t c"

definition end_update :: "thread_id \<Rightarrow> cache_provider \<Rightarrow> cache_provider option" where
  "end_update t c = unlock t c"

definition get_next_updatable ::
  "thread_id \<Rightarrow> nat \<Rightarrow> cache_provider \<Rightarrow> cache_error + obj ptr option" where
  "get_next_updatable t position c =
     (if lock_holder c \<noteq> Some t then Inl SynchronizationViolation
      else Inr (if position < length (updatable_idx c) then Some (updatable_idx c ! position)
                else None))"

text \<open>
  \<^verbatim>\<open>owner_idx[k]\<close> with \<^verbatim>\<open>operator[]\<close> of the unordered map: a missing key is
  inserted with an empty vector. \<open>owner_slot\<close> is the vector then found there.
\<close>

definition owner_slot :: "cache_provider \<Rightarrow> owner_id \<Rightarrow> obj ptr list" where
  "owner_slot c k = (case owner_idx c k of None \<Rightarrow> [] | Some l \<Rightarrow> l)"

definition add_internal :: "obj ptr \<Rightarrow> cache_provider \<Rightarrow> cache_provider" where
  "add_internal object c =
     c\<lparr>id_idx := (id_idx c)(id_of (deref object) \<mapsto> object),
       owner_idx := (owner_idx c)(owner_of (deref object) \<mapsto>
                      owner_slot c (owner_of (deref object)) @ [object]),
       updatable_idx := (if updatable_of (deref object) then updatable_idx c @ [object]
                         else updatable_idx c)\<rparr>"

definition get_loc :: "cache_provider \<Rightarrow> coord \<Rightarrow> coord \<Rightarrow> map_obj ptr option" where
  "get_loc c x y = loc_idx c x y"

definition set_loc :: "coord \<Rightarrow> coord \<Rightarrow> map_obj ptr option \<Rightarrow> cache_provider \<Rightarrow> cache_provider" where
  "set_loc x y v c = c\<lparr>loc_idx := (loc_idx c)(x := (loc_idx c x)(y := v))\<rparr>"

text \<open>
  \<open>add_internal(map_obj*)\<close>: the first pair of loops returns false at the first
  occupied cell, the second pair writes the pointer into every covered cell.
\<close>

definition add_internal_map :: "map_obj ptr \<Rightarrow> cache_provider \<Rightarrow> bool \<times> cache_provider" where
  "add_internal_map object c =
     (let ox = obj_x (deref object); oy = obj_y (deref object);
          ow = obj_width (deref object); oh = obj_height (deref object)
      in if search_loop ox (ox + ow) (\<lambda>x. search_loop oy (oy + oh) (\<lambda>y. get_loc c x y \<noteq> None))
         then (False, c)
         else (True, for_loop ox (ox + ow) (\<lambda>x. for_loop oy (oy + oh) (\<lambda>y. set_loc x y (Some object))) c))"

text \<open>
  \<open>remove_internal(base_obj*)\<close>. The owner's vector is reached through
  \<^verbatim>\<open>operator[]\<close>, so the key exists afterwards; \<^verbatim>\<open>std::find\<close> followed by
  \<^verbatim>\<open>erase\<close> drops the first element with the pointer's address, if there is one.
\<close>

fun erase_first :: "obj ptr \<Rightarrow> obj ptr list \<Rightarrow> obj ptr list" where
  "erase_first p [] = []"
| "erase_first p (q # qs) = (if address q = address p then qs else q # erase_first p qs)"

definition remove_internal :: "obj ptr \<Rightarrow> cache_provider \<Rightarrow> cache_provider" where
  "remove_internal object c =
     (let c1 = c\<lparr>id_idx := (id_idx c)(id_of (deref object) := None)\<rparr>;
          c2 = (if owner_of (deref object) \<noteq> 0
                then c1\<lparr>owner_idx := (owner_idx c1)(owner_of (deref object) \<mapsto>
                          erase_first object (owner_slot c1 (owner_of (deref object))))\<rparr>
                else c1)
      in if updatable_of (deref object)
         then c2\<lparr>updatable_idx := erase_first object (updatable_idx c2)\<rparr>
         else c2)"

definition remove_internal_map :: "map_obj ptr \<Rightarrow> cache_provider \<Rightarrow> cache_provider" where
  "remove_internal_map object c =
     (let ox = obj_x (deref object); oy = obj_y (deref object);
          ow = obj_width (deref object); oh = obj_height (deref object)
      in for_loop ox (ox + ow) (\<lambda>x. for_loop oy (oy + oh) (\<lambda>y. set_loc x y None)) c)"

definition is_root_object :: "map_obj ptr \<Rightarrow> coord \<Rightarrow> coord \<Rightarrow> bool" where
  "is_root_object p x y = (obj_x (deref p) = x \<and> obj_y (deref p) = y)"

text \<open>
  \<open>clamp\<close> updates its four reference arguments; here it returns them. In the
  definitions below \<open>sx, sy, ex, ey\<close> stand for the source's locals
  \<open>start_x, start_y, end_x, end_y\<close>, whose names are those of the cache's fields.
\<close>

definition clamp ::
  "cache_provider \<Rightarrow> coord \<Rightarrow> coord \<Rightarrow> coord \<Rightarrow> coord \<Rightarrow> coord \<times> coord \<times> coord \<times> coord" where
  "clamp c sx sy ex ey =
     (let sx = (if sx < start_x c then start_x c else sx);
          sy = (if sy < start_y c then start_y c else sy);
          ex = (if ex \<ge> end_x c then end_x c - 1 else ex);
          ey = (if ey \<ge> end_y c then end_y c - 1 else ey)
      in (sx, sy, ex, ey))"

text \<open>
  The queries hold \<open>mtx\<close> for their duration and release it before returning; they
  read the indices and leave the cache as it was, so each is a function of the cache.
  \<open>clone()\<close> yields a copy of the object pointed to, which is \<open>deref\<close>.
  \<open>emplace\<close> on the result map keeps an entry that is already there.
\<close>

definition emplace :: "'k \<Rightarrow> 'v \<Rightarrow> ('k \<Rightarrow> 'v option) \<Rightarrow> ('k \<Rightarrow> 'v option)" where
  "emplace k v m = (if m k = None then m(k \<mapsto> v) else m)"

definition get_by_id :: "cache_provider \<Rightarrow> obj_id \<Rightarrow> obj option" where
  "get_by_id c search_id =
     (case id_idx c search_id of None \<Rightarrow> None | Some p \<Rightarrow> Some (deref p))"

definition get_at_location :: "cache_provider \<Rightarrow> coord \<Rightarrow> coord \<Rightarrow> map_obj option" where
  "get_at_location c x y =
     (case get_loc c x y of Some p \<Rightarrow> Some (deref p) | None \<Rightarrow> None)"

text \<open>
  The body shared by the root-cell scans of \<open>get_in_area\<close> and \<open>get_in_owner_los\<close>.
\<close>

definition collect_root ::
  "cache_provider \<Rightarrow> coord \<Rightarrow> coord \<Rightarrow> (obj_id \<Rightarrow> map_obj option) \<Rightarrow> (obj_id \<Rightarrow> map_obj option)" where
  "collect_root c x y result =
     (case get_loc c x y of
        Some current \<Rightarrow>
          if is_root_object current x y then emplace (obj_id (deref current)) (deref current) result
          else result
      | None \<Rightarrow> result)"

text \<open>
  \<open>get_in_area\<close>: the outer loop runs from the clamped \<open>x\<close> to the clamped
  \<open>end_x\<close>; the inner loop restarts at \<open>end_y - height\<close>, with the clamped \<open>end_y\<close>
  and the \<open>height\<close> that was passed in.
\<close>

definition get_in_area ::
  "cache_provider \<Rightarrow> coord \<Rightarrow> coord \<Rightarrow> dimension \<Rightarrow> dimension \<Rightarrow> (obj_id \<Rightarrow> map_obj option)" where
  "get_in_area c x y width height =
     (case clamp c x y (x + width) (y + height) of
        (x, y, ex, ey) \<Rightarrow>
          for_loop x ex (\<lambda>x. for_loop (ey - height) ey (\<lambda>y. collect_root c x y))
            (\<lambda>_. None))"

definition get_by_owner :: "cache_provider \<Rightarrow> owner_id \<Rightarrow> (obj_id \<Rightarrow> obj option)" where
  "get_by_owner c ow =
     (case owner_idx c ow of
        None \<Rightarrow> (\<lambda>_. None)
      | Some l \<Rightarrow> fold (\<lambda>i. emplace (id_of (deref i)) (deref i)) l (\<lambda>_. None))"

text \<open>
  \<open>get_in_owner_los(owner)\<close>: the range-based loop over the owner's vector is a
  fold; objects that are not positioned are skipped.
\<close>

definition get_in_owner_los :: "cache_provider \<Rightarrow> owner_id \<Rightarrow> (obj_id \<Rightarrow> map_obj option)" where
  "get_in_owner_los c ow =
     (case owner_idx c ow of
        None \<Rightarrow> (\<lambda>_. None)
      | Some owner_objects \<Rightarrow>
          fold (\<lambda>object result.
                  case deref object of
                    Plain b \<Rightarrow> result
                  | Located current_object \<Rightarrow>
                      (case clamp c (obj_x current_object - los_radius c)
                                    (obj_y current_object - los_radius c)
                                    (obj_x current_object + los_radius c)
                                    (obj_y current_object + los_radius c) of
                         (sx, sy, ex, ey) \<Rightarrow>
                           for_loop sx ex (\<lambda>x. for_loop sy ey (\<lambda>y. collect_root c x y)) result))
               owner_objects (\<lambda>_. None))"

definition get_in_owner_los_in ::
  "cache_provider \<Rightarrow> owner_id \<Rightarrow> coord \<Rightarrow> coord \<Rightarrow> dimension \<Rightarrow> dimension \<Rightarrow> (obj_id \<Rightarrow> map_obj option)" where
  "get_in_owner_los_in c ow x y width height =
     (\<lambda>k. case get_in_owner_los c ow k of
             None \<Rightarrow> None
           | Some current_object \<Rightarrow>
               if obj_x current_object \<ge> x \<and> obj_y current_object \<ge> y
                  \<and> obj_x current_object \<le> x + width \<and> obj_y current_object \<le> y + height
               then Some current_object else None)"

definition get_users_with_los_at :: "cache_provider \<Rightarrow> coord \<Rightarrow> coord \<Rightarrow> owner_id set" where
  "get_users_with_los_at c x y =
     (case clamp c (x - los_radius c) (y - los_radius c) (x + los_radius c) (y + los_radius c) of
        (sx, sy, ex, ey) \<Rightarrow>
          for_loop sx ex (\<lambda>this_x. for_loop sy ey (\<lambda>this_y result.
            case get_loc c this_x this_y of
              Some current \<Rightarrow>
                if owner (deref current) \<noteq> 0 then insert (owner (deref current)) result
                else result
            | None \<Rightarrow> result)) {})"

definition is_area_empty :: "cache_provider \<Rightarrow> coord \<Rightarrow> coord \<Rightarrow> dimension \<Rightarrow> dimension \<Rightarrow> bool" where
  "is_area_empty c x y width height =
     (case clamp c x y (x + width) (y + height) of
        (x, y, ex, ey) \<Rightarrow>
          \<not> search_loop x ex (\<lambda>x. search_loop (ey - height) ey (\<lambda>y. get_loc c x y \<noteq> None)))"

definition is_location_in_los :: "cache_provider \<Rightarrow> coord \<Rightarrow> coord \<Rightarrow> owner_id \<Rightarrow> bool" where
  "is_location_in_los c x y ow =
     (case clamp c (x - los_radius c) (y - los_radius c) (x + los_radius c) (y + los_radius c) of
        (sx, sy, ex, ey) \<Rightarrow>
          search_loop sx ex (\<lambda>x. search_loop sy ey (\<lambda>y.
            case get_loc c x y of
              Some current \<Rightarrow> is_root_object current x y \<and> owner (deref current) = ow
            | None \<Rightarrow> False)))"

definition is_location_in_bounds ::
  "cache_provider \<Rightarrow> coord \<Rightarrow> coord \<Rightarrow> dimension \<Rightarrow> dimension \<Rightarrow> bool" where
  "is_location_in_bounds c x y width height =
     (x \<ge> start_x c \<and> y \<ge> start_y c \<and> x + width \<le> end_x c \<and> y + height \<le> end_y c)"

definition is_user_present :: "cache_provider \<Rightarrow> owner_id \<Rightarrow> bool" where
  "is_user_present c user_id = (owner_idx c user_id \<noteq> None)"

subsection \<open>The public add and remove\<close>

text \<open>
  Modelled from the spec: the public \<open>add\<close> and \<open>remove\<close> of the cache are declared
  in CacheProvider.h, which is not among the sources; only the four internal
  functions they are built from are. Following the spec, adding an object
  "inserts into Registry, Owner Index, and (if positioned) Grid" and "fails with
  PlacementConflict and leaves cache state unchanged if any covered cell is already
  occupied": the grid placement is tried first and the registry is touched only when it
  succeeded. Removing "deletes from Registry, Owner Index (if owned), and clears
  every covered Grid cell".
\<close>

definition add_object :: "obj ptr \<Rightarrow> cache_provider \<Rightarrow> cache_error option \<times> cache_provider" where
  "add_object object c =
     (case deref object of
        Plain b \<Rightarrow> (None, add_internal object c)
      | Located m \<Rightarrow>
          (case add_internal_map (Ptr (address object) m) c of
             (False, c') \<Rightarrow> (Some PlacementConflict, c')
           | (True, c') \<Rightarrow> (None, add_internal object c')))"

definition remove_object :: "obj ptr \<Rightarrow> cache_provider \<Rightarrow> cache_provider" where
  "remove_object object c =
     (case deref object of
        Plain b \<Rightarrow> remove_internal object c
      | Located m \<Rightarrow> remove_internal object (remove_internal_map (Ptr (address object) m) c))"

subsection \<open>Sequences of cache operations\<close>

text \<open>
  A step of the cache as seen from its callers: a thread opens or closes an update
  scope, or one of the four internal mutators runs. \<open>None\<close> is a step that does not
  return (\<open>lock\<close> while another thread owns the mutex) or is undefined.
\<close>

datatype cache_op =
    Begin_update thread_id coord coord dimension dimension
  | End_update thread_id
  | Add_internal "obj ptr"
  | Add_internal_map "map_obj ptr"
  | Remove_internal "obj ptr"
  | Remove_internal_map "map_obj ptr"

fun cache_step :: "cache_op \<Rightarrow> cache_provider \<Rightarrow> cache_provider option" where
  "cache_step (Begin_update t x y w h) c = begin_update t x y w h c"
| "cache_step (End_update t) c = end_update t c"
| "cache_step (Add_internal p) c = Some (add_internal p c)"
| "cache_step (Add_internal_map m) c = Some (snd (add_internal_map m c))"
| "cache_step (Remove_internal p) c = Some (remove_internal p c)"
| "cache_step (Remove_internal_map m) c = Some (remove_internal_map m c)"

fun run_cache :: "cache_op list \<Rightarrow> cache_provider \<Rightarrow> cache_provider option" where
  "run_cache [] c = Some c"
| "run_cache (op # ops) c = (case cache_step op c of None \<Rightarrow> None | Some c' \<Rightarrow> run_cache ops c')"

fun is_scope_op :: "cache_op \<Rightarrow> bool" where
  "is_scope_op (Begin_update t x y w h) = True"
| "is_scope_op (End_update t) = True"
| "is_scope_op other = False"

text \<open>The cells of the rectangle of a positioned object.\<close>

definition covers :: "map_obj \<Rightarrow> coord \<Rightarrow> coord \<Rightarrow> bool" where
  "covers m cx cy \<longleftrightarrow>
     obj_x m \<le> cx \<and> cx < obj_x m + obj_width m \<and> obj_y m \<le> cy \<and> cy < obj_y m + obj_height m"

section \<open>The request router (ProcessorNode.cpp)\<close>

text \<open>
  A connection is the address of its shared \<open>tcp_connection\<close>; its \<open>state\<close> field,
  which holds the authenticated id, is \<open>conn_state\<close> of the node below. The result codes
  and the request results are constants of headers that are not among the sources:
  they are taken as distinct values, \<open>Business\<close> being the handler-defined codes. A
  \<open>data_stream\<close> is the sequence of values written to it.
\<close>

type_synonym conn = nat

datatype result_code =
  Success | NoResponse | RetryLater | InvalidRequestType | InvalidParameters | Business nat

datatype request_result = Request_success | Request_no_response | Request_retry_later

datatype written =
    Code result_code
  | Header "8 word" "8 word" "8 word"
  | Target obj_id
  | Bytes "8 word list"

type_synonym data_stream = "written list"

text \<open>
  The handler contract. \<open>deserialize\<close> is false when decoding throws
  \<open>read_past_end_exception\<close>. \<open>process\<close> receives \<open>authenticated_id\<close> by reference:
  it either throws \<open>synchronization_exception\<close> or returns a result code and leaves a
  value in \<open>authenticated_id\<close>. \<open>serialize\<close> gives what the handler appends to the
  response. Each depends on the parameters that were decoded.
\<close>

datatype process_result = Synchronization_exception | Returned result_code obj_id

record base_handler =
  deserialize :: "data_stream \<Rightarrow> bool"
  process :: "data_stream \<Rightarrow> obj_id \<Rightarrow> process_result"
  serialize :: "data_stream \<Rightarrow> data_stream"

text \<open>
  The node. A handler table maps a request type to one handler per worker number.
  \<open>outgoing\<close> is what was handed to \<open>server.enqueue_outgoing\<close>, in order.
\<close>

record processor_node =
  area_id :: obj_id
  broker :: conn
  authenticated_clients :: "obj_id \<Rightarrow> conn list option"
  conn_state :: "conn \<Rightarrow> obj_id"
  authenticated_handlers :: "16 word \<Rightarrow> (nat \<Rightarrow> base_handler) option"
  unauthenticated_handlers :: "16 word \<Rightarrow> (nat \<Rightarrow> base_handler) option"
  outgoing :: "(conn \<times> data_stream) list"

text \<open>
  \<open>Broker_node_down_exception\<close> is the exception of that name. \<open>Erase_at_end\<close> is
  \<open>list.erase(list.end())\<close> in \<open>del_client\<close>, which C++ leaves undefined.
\<close>

datatype node_error = Broker_node_down_exception | Erase_at_end

definition new_node :: "obj_id \<Rightarrow> processor_node" where
  "new_node area =
     \<lparr>area_id = area, broker = 0, authenticated_clients = (\<lambda>_. None), conn_state = (\<lambda>_. 0),
      authenticated_handlers = (\<lambda>_. None), unauthenticated_handlers = (\<lambda>_. None),
      outgoing = []\<rparr>"

definition client_slot :: "processor_node \<Rightarrow> obj_id \<Rightarrow> conn list" where
  "client_slot n k = (case authenticated_clients n k of None \<Rightarrow> [] | Some l \<Rightarrow> l)"

definition create_message :: "8 word \<Rightarrow> 8 word \<Rightarrow> data_stream" where
  "create_message category type = [Header 0 category type]"

definition send_to_broker :: "obj_id \<Rightarrow> data_stream \<Rightarrow> processor_node \<Rightarrow> processor_node" where
  "send_to_broker target_id message n =
     n\<lparr>outgoing := outgoing n @ [(broker n, message @ [Target target_id])]\<rparr>"

text \<open>\<open>start\<close>, with \<open>b\<close> the connection that \<open>server.adopt\<close> returns.\<close>

definition start :: "conn \<Rightarrow> processor_node \<Rightarrow> processor_node" where
  "start b n =
     (if area_id n \<noteq> 0
      then send_to_broker (area_id n) (create_message 0 0)
             (n\<lparr>broker := b, conn_state := (conn_state n)(b := area_id n),
                authenticated_clients :=
                  (authenticated_clients n)(area_id n \<mapsto> client_slot n (area_id n) @ [b])\<rparr>)
      else n)"

definition add_client :: "obj_id \<Rightarrow> conn \<Rightarrow> processor_node \<Rightarrow> processor_node" where
  "add_client ident connection n =
     (if ident = 0 then n
      else n\<lparr>conn_state := (conn_state n)(connection := ident),
             authenticated_clients :=
               (authenticated_clients n)(ident \<mapsto> client_slot n ident @ [connection])\<rparr>)"

definition del_client :: "obj_id \<Rightarrow> conn \<Rightarrow> processor_node \<Rightarrow> node_error + processor_node" where
  "del_client ident connection n =
     (if ident = 0 then Inr n
      else if ident = area_id n then Inl Broker_node_down_exception
      else case authenticated_clients n ident of
             None \<Rightarrow> Inr n
           | Some list \<Rightarrow>
               if connection \<notin> set list then Inl Erase_at_end
               else if remove1 connection list = []
                    then Inr (n\<lparr>authenticated_clients := (authenticated_clients n)(ident := None)\<rparr>)
                    else Inr (n\<lparr>authenticated_clients :=
                                  (authenticated_clients n)(ident \<mapsto> remove1 connection list)\<rparr>))"

definition send :: "obj_id \<Rightarrow> data_stream \<Rightarrow> processor_node \<Rightarrow> processor_node" where
  "send receipient_id notification n =
     (case authenticated_clients n receipient_id of
        None \<Rightarrow> n
      | Some l \<Rightarrow> n\<lparr>outgoing := outgoing n @ map (\<lambda>i. (i, notification)) l\<rparr>)"

definition on_disconnect :: "conn \<Rightarrow> processor_node \<Rightarrow> node_error + processor_node" where
  "on_disconnect client n = del_client (conn_state n client) client n"

text \<open>\<^verbatim>\<open>uint16 type = (category << 8) | method\<close>\<close>

definition request_type :: "8 word \<Rightarrow> 8 word \<Rightarrow> 16 word" where
  "request_type category method = push_bit 8 (ucast category) OR ucast method"

text \<open>
  The table chosen by the identity, the \<open>count(type) == 0\<close> test and the selection of
  the worker's instance, in one lookup: \<open>None\<close> is the branch that answers
  \<open>invalid_request_type\<close>.
\<close>

definition lookup_handler ::
  "processor_node \<Rightarrow> obj_id \<Rightarrow> 16 word \<Rightarrow> nat \<Rightarrow> base_handler option" where
  "lookup_handler n authenticated_id type worker_num =
     (case (if authenticated_id \<noteq> 0 then authenticated_handlers n type
            else unauthenticated_handlers n type) of
        None \<Rightarrow> None
      | Some pool \<Rightarrow> Some (pool worker_num))"

text \<open>
  What \<open>on_request\<close> does after the result code is written and the early returns are
  past: the comparison of \<open>authenticated_id\<close> with \<open>start_id\<close>. An exception of
  \<open>del_client\<close> leaves \<open>on_request\<close> with the response as written so far.
\<close>

datatype outcome = Result request_result | Threw node_error

definition update_identity ::
  "obj_id \<Rightarrow> obj_id \<Rightarrow> conn \<Rightarrow> data_stream \<Rightarrow> processor_node
     \<Rightarrow> outcome \<times> data_stream \<times> processor_node" where
  "update_identity authenticated_id start_id client response n =
     (if authenticated_id \<noteq> start_id
      then (if authenticated_id \<noteq> 0
            then (Result Request_success, response, add_client authenticated_id client n)
            else (case del_client start_id client n of
                    Inl e \<Rightarrow> (Threw e, response, n)
                  | Inr n' \<Rightarrow> (Result Request_success, response, n')))
      else (Result Request_success, response, n))"

definition on_request ::
  "conn \<Rightarrow> nat \<Rightarrow> 8 word \<Rightarrow> 8 word \<Rightarrow> data_stream \<Rightarrow> data_stream \<Rightarrow> processor_node
     \<Rightarrow> outcome \<times> data_stream \<times> processor_node" where
  "on_request client worker_num category method parameters response n =
     (let start_id = conn_state n client in
      case lookup_handler n start_id (request_type category method) worker_num of
        None \<Rightarrow> (Result Request_success, response @ [Code InvalidRequestType], n)
      | Some handler \<Rightarrow>
          if \<not> deserialize handler parameters
          then (Result Request_success, response @ [Code InvalidParameters], n)
          else (case process handler parameters start_id of
                  Synchronization_exception \<Rightarrow> (Result Request_retry_later, response, n)
                | Returned result authenticated_id \<Rightarrow>
                    if result = Success
                    then update_identity authenticated_id start_id client
                           (response @ [Code result] @ serialize handler parameters) n
                    else if result = NoResponse
                    then (Result Request_no_response, response @ [Code result], n)
                    else update_identity authenticated_id start_id client
                           (response @ [Code result]) n))"

subsection \<open>Sequences of client registrations\<close>

datatype client_op = Add_client obj_id conn | Del_client obj_id conn

fun run_clients :: "client_op list \<Rightarrow> processor_node \<Rightarrow> node_error + processor_node" where
  "run_clients [] n = Inr n"
| "run_clients (Add_client i k # ops) n = run_clients ops (add_client i k n)"
| "run_clients (Del_client i k # ops) n =
     (case del_client i k n of Inl e \<Rightarrow> Inl e | Inr n' \<Rightarrow> run_clients ops n')"

subsection \<open>What a scan finds in one cell\<close>

text \<open>
  Two auxiliary readings of a grid cell, used to state what the scanning queries
  return: the copy that the root-cell scans would record under key \<open>k\<close> at the cell,
  and the owner that \<open>get_users_with_los_at\<close> would record there.
\<close>

definition root_hit :: "cache_provider \<Rightarrow> obj_id \<Rightarrow> coord \<Rightarrow> coord \<Rightarrow> map_obj option" where
  "root_hit c k x y =
     (case get_loc c x y of
        Some p \<Rightarrow> if is_root_object p x y \<and> obj_id (deref p) = k then Some (deref p) else None
      | None \<Rightarrow> None)"


definition cell_owner :: "cache_provider \<Rightarrow> coord \<Rightarrow> coord \<Rightarrow> owner_id set" where
  "cell_owner c x y =
     (case get_loc c x y of
        Some p \<Rightarrow> if owner (deref p) \<noteq> 0 then {owner (deref p)} else {}
      | None \<Rightarrow> {})"


section \<open>Concrete scenarios\<close>

text \<open>
  The scenario of the specification: bounds \<open>(0, 0, 10, 10)\<close>, line-of-sight radius 2,
  and the object \<open>{id 1, owner 7, x 5, y 5, w 1, h 1}\<close>.
\<close>

definition cache0 :: cache_provider where
  "cache0 = new_cache 0 0 10 10 2"

definition O1 :: "map_obj ptr" where
  "O1 = Ptr 1 \<lparr>obj_id = 1, owner = 7, is_updatable = False,
               obj_x = 5, obj_y = 5, obj_width = 1, obj_height = 1\<rparr>"

definition cache1 :: cache_provider where
  "cache1 = snd (add_object (upcast O1) cache0)"

text \<open>A second object whose 2 by 2 rectangle at (4, 4) covers the cell of \<open>O1\<close>.\<close>

definition O2 :: "map_obj" where
  "O2 = \<lparr>obj_id = 2, owner = 8, is_updatable = False,
         obj_x = 4, obj_y = 4, obj_width = 2, obj_height = 2\<rparr>"

text \<open>An unowned object without a position.\<close>

definition P3 :: "obj ptr" where
  "P3 = Ptr 3 (Plain \<lparr>obj_id = 3, owner = 0, is_updatable = False\<rparr>)"

text \<open>
  Two 1 by 1 objects of owner 7: \<open>O4\<close> at (0, 3) and \<open>O5\<close> at (9, 9), the last
  cell inside the bounds.
\<close>

definition O4 :: "map_obj ptr" where
  "O4 = Ptr 4 \<lparr>obj_id = 4, owner = 7, is_updatable = False,
               obj_x = 0, obj_y = 3, obj_width = 1, obj_height = 1\<rparr>"

definition O5 :: "map_obj ptr" where
  "O5 = Ptr 5 \<lparr>obj_id = 5, owner = 7, is_updatable = False,
               obj_x = 9, obj_y = 9, obj_width = 1, obj_height = 1\<rparr>"

definition cache45 :: cache_provider where
  "cache45 = snd (add_object (upcast O5) (snd (add_object (upcast O4) cache0)))"

text \<open>An object of owner 8 at (3, 3), two cells away from \<open>O1\<close> on each axis.\<close>

definition O6 :: "map_obj ptr" where
  "O6 = Ptr 6 \<lparr>obj_id = 6, owner = 8, is_updatable = False,
               obj_x = 3, obj_y = 3, obj_width = 1, obj_height = 1\<rparr>"

definition cache16 :: cache_provider where
  "cache16 = snd (add_object (upcast O6) cache1)"

text \<open>An object of owner 7 without a position, which is never added.\<close>

definition P9 :: "obj ptr" where
  "P9 = Ptr 9 (Plain \<lparr>obj_id = 9, owner = 7, is_updatable = False\<rparr>)"

text \<open>Two updatable objects.\<close>

definition U1 :: "obj ptr" where
  "U1 = Ptr 11 (Plain \<lparr>obj_id = 11, owner = 7, is_updatable = True\<rparr>)"

definition U2 :: "obj ptr" where
  "U2 = Ptr 12 (Plain \<lparr>obj_id = 12, owner = 7, is_updatable = True\<rparr>)"

text \<open>The empty cache of the scenario after thread 1 has opened an update scope.\<close>

definition cache_locked :: cache_provider where
  "cache_locked = cache0\<lparr>mtx_owner := Some 1, mtx_depth := 1, lock_holder := Some 1\<rparr>"

text \<open>
  Router scenarios. Three handlers that decode anything: a login that sets the
  identity to 42 and answers with the "no response" code, a logout that clears the
  identity and answers success, and one whose processing step runs into a
  synchronization conflict. \<open>node_a\<close> has the login and the busy handler in its
  unauthenticated table and the logout in its authenticated table; in \<open>node_b\<close>
  connection 5 has been registered as 42.
\<close>

definition h_login :: base_handler where
  "h_login = \<lparr>deserialize = (\<lambda>_. True), process = (\<lambda>_ _. Returned NoResponse 42),
              serialize = (\<lambda>_. [])\<rparr>"

definition h_logout :: base_handler where
  "h_logout = \<lparr>deserialize = (\<lambda>_. True), process = (\<lambda>_ _. Returned Success 0),
               serialize = (\<lambda>_. [])\<rparr>"

definition h_busy :: base_handler where
  "h_busy = \<lparr>deserialize = (\<lambda>_. True), process = (\<lambda>_ _. Synchronization_exception),
             serialize = (\<lambda>_. [])\<rparr>"

definition node_a :: processor_node where
  "node_a = (new_node 0)
     \<lparr>authenticated_handlers := [request_type 1 2 \<mapsto> (\<lambda>_. h_logout)],
      unauthenticated_handlers :=
        [request_type 1 1 \<mapsto> (\<lambda>_. h_login), request_type 1 3 \<mapsto> (\<lambda>_. h_busy)]\<rparr>"

definition node_b :: processor_node where
  "node_b = add_client 42 5 node_a"

text \<open>
  A node for area 3 after \<open>start\<close>, with the broker connection 9, and the node it
  becomes when connection 5 registers as 42 and leaves again.
\<close>

definition node_s :: processor_node where
  "node_s = start 9 (new_node 3)"

definition node_t :: processor_node where
  "node_t = (add_client 42 5 node_s)
     \<lparr>authenticated_clients := (authenticated_clients (add_client 42 5 node_s))(42 := None)\<rparr>"

section \<open>Facts about the loops\<close>

lemma search_loop_iff: "search_loop i n hit \<longleftrightarrow> (\<exists>k. i \<le> k \<and> k < n \<and> hit k)"
proof (induction i n hit rule: search_loop.induct)
  case (1 i n hit)
  show ?case
  proof (cases "i < n")
    case False
    then show ?thesis by (subst search_loop.simps) auto
  next
    case True
    show ?thesis
    proof (cases "hit i")
      case True
      with \<open>i < n\<close> show ?thesis by (subst search_loop.simps) auto
    next
      case False
      have "search_loop i n hit = search_loop (i + 1) n hit"
        using \<open>i < n\<close> False by (subst search_loop.simps) simp
      also have "\<dots> \<longleftrightarrow> (\<exists>k. i + 1 \<le> k \<and> k < n \<and> hit k)"
        using "1.IH" \<open>i < n\<close> False by simp
      also have "\<dots> \<longleftrightarrow> (\<exists>k. i \<le> k \<and> k < n \<and> hit k)"
      proof
        assume "\<exists>k. i + 1 \<le> k \<and> k < n \<and> hit k"
        then obtain k where "i + 1 \<le> k" "k < n" "hit k" by blast
        then have "i \<le> k \<and> k < n \<and> hit k" by simp
        then show "\<exists>k. i \<le> k \<and> k < n \<and> hit k" by blast
      next
        assume "\<exists>k. i \<le> k \<and> k < n \<and> hit k"
        then obtain k where k: "i \<le> k" "k < n" "hit k" by blast
        with False have "k \<noteq> i" by auto
        with k have "i + 1 \<le> k \<and> k < n \<and> hit k" by simp
        then show "\<exists>k. i + 1 \<le> k \<and> k < n \<and> hit k" by blast
      qed
      finally show ?thesis .
    qed
  qed
qed

lemma for_loop_fold: "for_loop i n body s = fold body [i..n - 1] s"
proof (induction i n body s rule: for_loop.induct)
  case (1 i n body s)
  show ?case
  proof (cases "i < n")
    case False
    then show ?thesis by (subst for_loop.simps) simp
  next
    case True
    then have "[i..n - 1] = i # [i + 1..n - 1]" by (simp add: upto_rec1)
    with True "1.IH" show ?thesis by (subst for_loop.simps) simp
  qed
qed

lemma for_loop_invariant:
  assumes "P s" and "\<And>k s. P s \<Longrightarrow> P (body k s)"
  shows "P (for_loop i n body s)"
  using assms
proof (induction i n body s rule: for_loop.induct)
  case (1 i n body s)
  show ?case
  proof (cases "i < n")
    case True
    have "P (body i s)" by (rule "1.prems"(2)) (rule "1.prems"(1))
    have "P (for_loop (i + 1) n body (body i s))"
    proof (rule "1.IH")
      show "i < n" by (rule True)
      show "P (body i s)" by (rule \<open>P (body i s)\<close>)
      show "\<And>k s. P s \<Longrightarrow> P (body k s)" by (rule "1.prems"(2))
    qed
    with True show ?thesis by (subst for_loop.simps) simp
  next
    case False
    with "1.prems"(1) show ?thesis by (subst for_loop.simps) simp
  qed
qed

lemma for_loop_invariant_range:
  assumes "P s" and "\<And>k s. i \<le> k \<Longrightarrow> k < n \<Longrightarrow> P s \<Longrightarrow> P (body k s)"
  shows "P (for_loop i n body s)"
  using assms
proof (induction i n body s rule: for_loop.induct)
  case (1 i n body s)
  show ?case
  proof (cases "i < n")
    case True
    have step: "P (body i s)" using True "1.prems"(1) by (intro "1.prems"(2)) auto
    have "P (for_loop (i + 1) n body (body i s))"
    proof (rule "1.IH")
      show "i < n" by (rule True)
      show "P (body i s)" by (rule step)
      fix k s assume "i + 1 \<le> k" "k < n" "P s"
      then show "P (body k s)" by (intro "1.prems"(2)) auto
    qed
    with True show ?thesis by (subst for_loop.simps) simp
  next
    case False
    with "1.prems"(1) show ?thesis by (subst for_loop.simps) simp
  qed
qed

lemma for_loop_reaches:
  assumes "i \<le> k" and "k < n" and "\<And>s. P (body k s)" and "\<And>j s. P s \<Longrightarrow> P (body j s)"
  shows "P (for_loop i n body s)"
  using assms
proof (induction i n body s rule: for_loop.induct)
  case (1 i n body s)
  from "1.prems"(1,2) have lt: "i < n" by simp
  show ?case
  proof (cases "i = k")
    case True
    have "P (body i s)" unfolding True by (rule "1.prems"(3))
    then have "P (for_loop (i + 1) n body (body i s))"
      using "1.prems"(4) by (rule for_loop_invariant_range) 
    with lt show ?thesis by (subst for_loop.simps) simp
  next
    case False
    have "P (for_loop (i + 1) n body (body i s))"
    proof (rule "1.IH")
      show "i < n" by (rule lt)
      show "i + 1 \<le> k" using False "1.prems"(1) by simp
      show "k < n" by (rule "1.prems"(2))
      show "\<And>s. P (body k s)" by (rule "1.prems"(3))
      show "\<And>j s. P s \<Longrightarrow> P (body j s)" by (rule "1.prems"(4))
    qed
    with lt show ?thesis by (subst for_loop.simps) simp
  qed
qed


lemma for_loop_union:
  "for_loop i n (\<lambda>k R. R \<union> F k) R = R \<union> (\<Union>k\<in>{i..<n}. F k)"
proof (induction i n "\<lambda>k R. R \<union> F k" R rule: for_loop.induct)
  case (1 i n R)
  show ?case
  proof (cases "i < n")
    case True
    then have "{i..<n} = insert i {i + 1..<n}" by auto
    with True 1 show ?thesis by (subst for_loop.simps) auto
  next
    case False
    then show ?thesis by (subst for_loop.simps) simp
  qed
qed


section \<open>Placement\<close>

lemma inner_set_loc:
  "loc_idx (for_loop j m (\<lambda>y. set_loc x y v) c) x' y' =
     (if x' = x \<and> j \<le> y' \<and> y' < m then v else loc_idx c x' y')"
proof (induction j m "\<lambda>y. set_loc x y v" c rule: for_loop.induct)
  case (1 i n s)
  show ?case
  proof (cases "i < n")
    case True
    with 1 show ?thesis by (subst for_loop.simps) (auto simp: set_loc_def)
  next
    case False
    then show ?thesis by (subst for_loop.simps) auto
  qed
qed

lemma outer_set_loc:
  "loc_idx (for_loop i n (\<lambda>x. for_loop j m (\<lambda>y. set_loc x y v)) c) x' y' =
     (if i \<le> x' \<and> x' < n \<and> j \<le> y' \<and> y' < m then v else loc_idx c x' y')"
proof (induction i n "\<lambda>x. for_loop j m (\<lambda>y. set_loc x y v)" c rule: for_loop.induct)
  case (1 i n s)
  show ?case
  proof (cases "i < n")
    case True
    with 1 show ?thesis by (subst for_loop.simps) (auto simp: inner_set_loc)
  next
    case False
    then show ?thesis by (subst for_loop.simps) auto
  qed
qed

text \<open>The grid loops write \<open>loc_idx\<close> and nothing else.\<close>

lemma set_loc_loops_frame:
  "\<exists>g. for_loop i n (\<lambda>x. for_loop j m (\<lambda>y. set_loc x y v)) c = c\<lparr>loc_idx := g\<rparr>"
proof (rule for_loop_invariant)
  show "\<exists>g. c = c\<lparr>loc_idx := g\<rparr>"
    by (rule exI [of _ "loc_idx c"]) simp
next
  fix k s
  assume "\<exists>g. s = c\<lparr>loc_idx := g\<rparr>"
  then show "\<exists>g. for_loop j m (\<lambda>y. set_loc k y v) s = c\<lparr>loc_idx := g\<rparr>"
  proof (rule for_loop_invariant)
    fix k' s'
    assume "\<exists>g. s' = c\<lparr>loc_idx := g\<rparr>"
    then obtain g where "s' = c\<lparr>loc_idx := g\<rparr>" by blast
    then have "set_loc k k' v s' = c\<lparr>loc_idx := g(k := (g k)(k' := v))\<rparr>"
      by (simp add: set_loc_def)
    then show "\<exists>g. set_loc k k' v s' = c\<lparr>loc_idx := g\<rparr>" by blast
  qed
qed

text \<open>
  A placement that finds one covered cell occupied returns false and leaves the cache
  as it was.
\<close>

lemma add_internal_map_occupied:
  assumes "covers (deref B) cx cy" and "get_loc c cx cy \<noteq> None"
  shows "add_internal_map B c = (False, c)"
proof -
  have "search_loop (obj_x (deref B)) (obj_x (deref B) + obj_width (deref B))
          (\<lambda>x. search_loop (obj_y (deref B)) (obj_y (deref B) + obj_height (deref B))
                 (\<lambda>y. get_loc c x y \<noteq> None))"
    unfolding search_loop_iff using assms unfolding covers_def by blast
  then show ?thesis by (simp add: add_internal_map_def Let_def)
qed

text \<open>
  A placement that succeeds found every covered cell free and leaves the pointer in
  exactly the covered cells; the other indices are as before.
\<close>

lemma add_internal_map_placed:
  assumes "add_internal_map A c = (True, c')"
  shows "get_loc c' x y = (if covers (deref A) x y then Some A else get_loc c x y)"
    and "id_idx c' = id_idx c" and "owner_idx c' = owner_idx c"
    and "updatable_idx c' = updatable_idx c" and "lock_holder c' = lock_holder c"
proof -
  let ?loops = "for_loop (obj_x (deref A)) (obj_x (deref A) + obj_width (deref A))
                  (\<lambda>x. for_loop (obj_y (deref A)) (obj_y (deref A) + obj_height (deref A))
                         (\<lambda>y. set_loc x y (Some A))) c"
  have c': "c' = ?loops"
    using assms by (simp add: add_internal_map_def Let_def split: if_splits)
  show "get_loc c' x y = (if covers (deref A) x y then Some A else get_loc c x y)"
    unfolding c' get_loc_def outer_set_loc covers_def by simp
  obtain g where g: "?loops = c\<lparr>loc_idx := g\<rparr>"
    using set_loc_loops_frame by blast
  show "id_idx c' = id_idx c" unfolding c' g by simp
  show "owner_idx c' = owner_idx c" unfolding c' g by simp
  show "updatable_idx c' = updatable_idx c" unfolding c' g by simp
  show "lock_holder c' = lock_holder c" unfolding c' g by simp
qed

lemma add_internal_map_free:
  assumes "\<And>x y. covers (deref A) x y \<Longrightarrow> get_loc c x y = None"
  shows "fst (add_internal_map A c)"
proof -
  have "\<not> search_loop (obj_x (deref A)) (obj_x (deref A) + obj_width (deref A))
          (\<lambda>x. search_loop (obj_y (deref A)) (obj_y (deref A) + obj_height (deref A))
                 (\<lambda>y. get_loc c x y \<noteq> None))"
    unfolding search_loop_iff using assms unfolding covers_def by auto
  then show ?thesis by (simp add: add_internal_map_def Let_def)
qed

lemma add_internal_map_bounds:
  "start_x (snd (add_internal_map A c)) = start_x c"
  "start_y (snd (add_internal_map A c)) = start_y c"
  "end_x (snd (add_internal_map A c)) = end_x c"
  "end_y (snd (add_internal_map A c)) = end_y c"
  "los_radius (snd (add_internal_map A c)) = los_radius c"
proof -
  let ?loops = "for_loop (obj_x (deref A)) (obj_x (deref A) + obj_width (deref A))
                  (\<lambda>x. for_loop (obj_y (deref A)) (obj_y (deref A) + obj_height (deref A))
                         (\<lambda>y. set_loc x y (Some A))) c"
  obtain g where g: "?loops = c\<lparr>loc_idx := g\<rparr>"
    using set_loc_loops_frame by blast
  have "snd (add_internal_map A c) = c \<or> snd (add_internal_map A c) = c\<lparr>loc_idx := g\<rparr>"
    unfolding add_internal_map_def Let_def g by simp
  then show "start_x (snd (add_internal_map A c)) = start_x c"
    "start_y (snd (add_internal_map A c)) = start_y c"
    "end_x (snd (add_internal_map A c)) = end_x c"
    "end_y (snd (add_internal_map A c)) = end_y c"
    "los_radius (snd (add_internal_map A c)) = los_radius c"
    by auto
qed

lemma add_object_placed:
  assumes "\<forall>x y. covers (deref A) x y \<longrightarrow> get_loc c x y = None"
  shows "fst (add_object (upcast A) c) = None"
    and "get_loc (snd (add_object (upcast A) c)) x y =
           (if covers (deref A) x y then Some A else get_loc c x y)"
    and "owner_idx (snd (add_object (upcast A) c)) =
           (owner_idx c)(owner (deref A) \<mapsto> owner_slot c (owner (deref A)) @ [upcast A])"
    and "start_x (snd (add_object (upcast A) c)) = start_x c"
    and "start_y (snd (add_object (upcast A) c)) = start_y c"
    and "end_x (snd (add_object (upcast A) c)) = end_x c"
    and "end_y (snd (add_object (upcast A) c)) = end_y c"
    and "los_radius (snd (add_object (upcast A) c)) = los_radius c"
proof -
  have "fst (add_internal_map A c)"
    by (rule add_internal_map_free) (simp add: assms)
  then obtain c' where c': "add_internal_map A c = (True, c')"
    by (cases "add_internal_map A c") auto
  have A: "Ptr (address A) (deref A) = A" by simp
  have obj: "add_object (upcast A) c = (None, add_internal (upcast A) c')"
    by (simp add: add_object_def upcast_def c')
  show "fst (add_object (upcast A) c) = None" by (simp add: obj)
  show "get_loc (snd (add_object (upcast A) c)) x y =
           (if covers (deref A) x y then Some A else get_loc c x y)"
    using add_internal_map_placed(1) [OF c', of x y]
    by (simp add: obj add_internal_def get_loc_def)
  show "owner_idx (snd (add_object (upcast A) c)) =
           (owner_idx c)(owner (deref A) \<mapsto> owner_slot c (owner (deref A)) @ [upcast A])"
  proof -
    have "deref (upcast A) = Located (deref A)" by (simp add: upcast_def)
    then show ?thesis
      using add_internal_map_placed(3) [OF c']
      by (simp add: obj add_internal_def owner_slot_def)
  qed
  have snd: "c' = snd (add_internal_map A c)" by (simp add: c')
  show "start_x (snd (add_object (upcast A) c)) = start_x c"
    by (simp add: obj add_internal_def snd add_internal_map_bounds)
  show "start_y (snd (add_object (upcast A) c)) = start_y c"
    by (simp add: obj add_internal_def snd add_internal_map_bounds)
  show "end_x (snd (add_object (upcast A) c)) = end_x c"
    by (simp add: obj add_internal_def snd add_internal_map_bounds)
  show "end_y (snd (add_object (upcast A) c)) = end_y c"
    by (simp add: obj add_internal_def snd add_internal_map_bounds)
  show "los_radius (snd (add_object (upcast A) c)) = los_radius c"
    by (simp add: obj add_internal_def snd add_internal_map_bounds)
qed


text \<open>The fields of the scenario caches.\<close>

lemma cache0_fields:
  "start_x cache0 = 0" "start_y cache0 = 0" "end_x cache0 = 10" "end_y cache0 = 10"
  "los_radius cache0 = 2" "get_loc cache0 x y = None" "owner_idx cache0 = (\<lambda>_. None)"
  by (simp_all add: cache0_def new_cache_def set_bounds_def get_loc_def)

lemma cache1_fields:
  "start_x cache1 = 0" "start_y cache1 = 0" "end_x cache1 = 10" "end_y cache1 = 10"
  "los_radius cache1 = 2"
  "get_loc cache1 x y = (if x = 5 \<and> y = 5 then Some O1 else None)"
  "owner_idx cache1 = [7 \<mapsto> [upcast O1]]"
proof -
  have free: "\<forall>x y. covers (deref O1) x y \<longrightarrow> get_loc cache0 x y = None"
    by (simp add: cache0_fields)
  note placed = add_object_placed [OF free]
  show "start_x cache1 = 0" "start_y cache1 = 0" "end_x cache1 = 10" "end_y cache1 = 10"
    "los_radius cache1 = 2"
    unfolding cache1_def by (simp_all add: placed cache0_fields)
  show "get_loc cache1 x y = (if x = 5 \<and> y = 5 then Some O1 else None)"
    unfolding cache1_def placed(2) by (auto simp: covers_def O1_def cache0_fields)
  show "owner_idx cache1 = [7 \<mapsto> [upcast O1]]"
    unfolding cache1_def placed(3) by (simp add: cache0_fields owner_slot_def O1_def)
qed

lemma cache45_fields:
  "start_x cache45 = 0" "start_y cache45 = 0" "end_x cache45 = 10" "end_y cache45 = 10"
  "los_radius cache45 = 2"
  "get_loc cache45 x y =
     (if x = 9 \<and> y = 9 then Some O5 else if x = 0 \<and> y = 3 then Some O4 else None)"
proof -
  let ?c4 = "snd (add_object (upcast O4) cache0)"
  have free4: "\<forall>x y. covers (deref O4) x y \<longrightarrow> get_loc cache0 x y = None"
    by (simp add: cache0_fields)
  note placed4 = add_object_placed [OF free4]
  have loc4: "get_loc ?c4 x y = (if x = 0 \<and> y = 3 then Some O4 else None)" for x y
    unfolding placed4(2) by (auto simp: covers_def O4_def cache0_fields)
  have free5: "\<forall>x y. covers (deref O5) x y \<longrightarrow> get_loc ?c4 x y = None"
    by (auto simp: loc4 covers_def O5_def)
  note placed5 = add_object_placed [OF free5]
  show "start_x cache45 = 0" "start_y cache45 = 0" "end_x cache45 = 10" "end_y cache45 = 10"
    "los_radius cache45 = 2"
    unfolding cache45_def by (simp_all add: placed5 placed4 cache0_fields)
  show "get_loc cache45 x y =
     (if x = 9 \<and> y = 9 then Some O5 else if x = 0 \<and> y = 3 then Some O4 else None)"
    unfolding cache45_def placed5(2) loc4 by (auto simp: covers_def O5_def)
qed

lemma cache16_fields:
  "start_x cache16 = 0" "start_y cache16 = 0" "end_x cache16 = 10" "end_y cache16 = 10"
  "los_radius cache16 = 2"
  "get_loc cache16 x y =
     (if x = 3 \<and> y = 3 then Some O6 else if x = 5 \<and> y = 5 then Some O1 else None)"
  "owner_idx cache16 = [7 \<mapsto> [upcast O1], 8 \<mapsto> [upcast O6]]"
proof -
  have free6: "\<forall>x y. covers (deref O6) x y \<longrightarrow> get_loc cache1 x y = None"
    by (auto simp: cache1_fields covers_def O6_def)
  note placed6 = add_object_placed [OF free6]
  show "start_x cache16 = 0" "start_y cache16 = 0" "end_x cache16 = 10" "end_y cache16 = 10"
    "los_radius cache16 = 2"
    unfolding cache16_def by (simp_all add: placed6 cache1_fields)
  show "get_loc cache16 x y =
     (if x = 3 \<and> y = 3 then Some O6 else if x = 5 \<and> y = 5 then Some O1 else None)"
    unfolding cache16_def placed6(2) cache1_fields by (auto simp: covers_def O6_def)
  show "owner_idx cache16 = [7 \<mapsto> [upcast O1], 8 \<mapsto> [upcast O6]]"
    unfolding cache16_def placed6(3) by (simp add: owner_slot_def O6_def cache1_fields)
qed

text \<open>
  C1. Adding a positioned object \<open>B\<close> whose rectangle covers a cell that an earlier
  object \<open>A\<close> occupies fails with \<open>PlacementConflict\<close>, and the cache after the failed
  call is the cache before it: the grid, the registry and the owner index are the same,
  and so is the result of every query (by id, at a location, in an area, by owner, next
  updatable).
\<close>

theorem add_object_conflict:
  assumes "deref B = Located m" and "covers m cx cy" and "get_loc c cx cy = Some A"
  shows "add_internal_map (Ptr (address B) m) c = (False, c)
       \<and> add_object B c = (Some PlacementConflict, c)
       \<and> loc_idx (snd (add_object B c)) = loc_idx c
       \<and> id_idx (snd (add_object B c)) = id_idx c
       \<and> owner_idx (snd (add_object B c)) = owner_idx c
       \<and> get_by_id (snd (add_object B c)) = get_by_id c
       \<and> get_at_location (snd (add_object B c)) = get_at_location c
       \<and> get_in_area (snd (add_object B c)) = get_in_area c
       \<and> get_by_owner (snd (add_object B c)) = get_by_owner c
       \<and> get_next_updatable t i (snd (add_object B c)) = get_next_updatable t i c"
proof -
  have grid: "add_internal_map (Ptr (address B) m) c = (False, c)"
    using assms by (intro add_internal_map_occupied [of _ cx cy]) auto
  then have "add_object B c = (Some PlacementConflict, c)"
    using assms(1) by (simp add: add_object_def)
  with grid show ?thesis by simp
qed

theorem add_object_conflict_witness:
  "deref (Ptr 2 (Located O2)) = Located O2 \<and> covers O2 5 5 \<and> get_loc cache1 5 5 = Some O1
   \<and> add_object (Ptr 2 (Located O2)) cache1 = (Some PlacementConflict, cache1)
   \<and> get_in_area (snd (add_object (Ptr 2 (Located O2)) cache1)) = get_in_area cache1"
proof -
  have m: "deref (Ptr 2 (Located O2)) = Located O2" by simp
  have cov: "covers O2 5 5" by (simp add: covers_def O2_def)
  have occ: "get_loc cache1 5 5 = Some O1"
    by (simp add: cache1_def cache0_def O1_def add_object_def upcast_def add_internal_map_def
        new_cache_def set_bounds_def search_loop_iff get_loc_def for_loop_fold set_loc_def
        add_internal_def owner_slot_def)
  show ?thesis
    using m cov occ add_object_conflict [OF m cov occ] by simp
qed

section \<open>What the scans return\<close>

lemma collect_root_at:
  "collect_root c x y result k = (case result k of Some v \<Rightarrow> Some v | None \<Rightarrow> root_hit c k x y)"
  by (auto simp: collect_root_def root_hit_def emplace_def split: option.splits)

lemma root_scan_stable:
  assumes "r k = Some v"
  shows "for_loop sx ex (\<lambda>x. for_loop sy ey (\<lambda>y. collect_root c x y)) r k = Some v"
proof (rule for_loop_invariant_range [where P = "\<lambda>r. r k = Some v"])
  show "r k = Some v" by (rule assms)
next
  fix x :: coord and s :: "obj_id \<Rightarrow> map_obj option" assume "s k = Some v"
  then show "for_loop sy ey (\<lambda>y. collect_root c x y) s k = Some v"
    by (rule for_loop_invariant_range [where P = "\<lambda>r. r k = Some v"]) (simp add: collect_root_at)
qed

lemma root_scan_None:
  assumes "r k = None"
    and "\<And>x y. sx \<le> x \<Longrightarrow> x < ex \<Longrightarrow> sy \<le> y \<Longrightarrow> y < ey \<Longrightarrow> root_hit c k x y = None"
  shows "for_loop sx ex (\<lambda>x. for_loop sy ey (\<lambda>y. collect_root c x y)) r k = None"
proof (rule for_loop_invariant_range [where P = "\<lambda>r. r k = None"])
  show "r k = None" by (rule assms)
next
  fix x :: coord and s :: "obj_id \<Rightarrow> map_obj option" assume x: "sx \<le> x" "x < ex" and s: "s k = None"
  from s show "for_loop sy ey (\<lambda>y. collect_root c x y) s k = None"
  proof (rule for_loop_invariant_range [where P = "\<lambda>r. r k = None"])
    fix y :: coord and s' :: "obj_id \<Rightarrow> map_obj option" assume "sy \<le> y" "y < ey" "s' k = None"
    with x show "collect_root c x y s' k = None"
      by (simp add: collect_root_at assms(2))
  qed
qed

lemma root_scan_Some:
  assumes "r k = None"
    and "for_loop sx ex (\<lambda>x. for_loop sy ey (\<lambda>y. collect_root c x y)) r k = Some v"
  shows "\<exists>x y. sx \<le> x \<and> x < ex \<and> sy \<le> y \<and> y < ey \<and> root_hit c k x y = Some v"
proof -
  let ?Q = "\<lambda>r. r k \<noteq> None \<longrightarrow>
              (\<exists>x y. sx \<le> x \<and> x < ex \<and> sy \<le> y \<and> y < ey \<and> root_hit c k x y = r k)"
  have "?Q (for_loop sx ex (\<lambda>x. for_loop sy ey (\<lambda>y. collect_root c x y)) r)"
  proof (rule for_loop_invariant_range [where P = ?Q])
    show "?Q r" using assms(1) by simp
  next
    fix x :: coord and s :: "obj_id \<Rightarrow> map_obj option" assume x: "sx \<le> x" "x < ex" and s: "?Q s"
    from s show "?Q (for_loop sy ey (\<lambda>y. collect_root c x y) s)"
    proof (rule for_loop_invariant_range [where P = ?Q])
      fix y :: coord and s' :: "obj_id \<Rightarrow> map_obj option" assume y: "sy \<le> y" "y < ey" and s': "?Q s'"
      show "?Q (collect_root c x y s')"
      proof (cases "s' k")
        case None
        then have "collect_root c x y s' k = root_hit c k x y" by (simp add: collect_root_at)
        with x y show ?thesis by auto
      next
        case (Some u)
        then have "collect_root c x y s' k = s' k" by (simp add: collect_root_at)
        with s' Some show ?thesis by simp
      qed
    qed
  qed
  with assms(2) show ?thesis by simp
qed

lemma root_scan_found:
  assumes "sx \<le> x0" "x0 < ex" "sy \<le> y0" "y0 < ey" "root_hit c k x0 y0 \<noteq> None"
  shows "for_loop sx ex (\<lambda>x. for_loop sy ey (\<lambda>y. collect_root c x y)) r k \<noteq> None"
proof (rule for_loop_reaches [where P = "\<lambda>r. r k \<noteq> None" and k = x0])
  show "sx \<le> x0" "x0 < ex" by (rule assms)+
next
  fix s :: "obj_id \<Rightarrow> map_obj option"
  show "for_loop sy ey (\<lambda>y. collect_root c x0 y) s k \<noteq> None"
  proof (rule for_loop_reaches [where P = "\<lambda>r. r k \<noteq> None" and k = y0])
    show "sy \<le> y0" "y0 < ey" by (rule assms)+
  next
    fix s' :: "obj_id \<Rightarrow> map_obj option" show "collect_root c x0 y0 s' k \<noteq> None"
      using assms(5) by (simp add: collect_root_at split: option.splits)
  next
    fix j :: coord and s' :: "obj_id \<Rightarrow> map_obj option" assume "s' k \<noteq> None"
    then show "collect_root c x0 j s' k \<noteq> None" by (auto simp: collect_root_at)
  qed
next
  fix j :: coord and s :: "obj_id \<Rightarrow> map_obj option" assume "s k \<noteq> None"
  then show "for_loop sy ey (\<lambda>y. collect_root c j y) s k \<noteq> None"
    by (rule for_loop_invariant_range [where P = "\<lambda>r. r k \<noteq> None"]) (auto simp: collect_root_at)
qed

lemma owners_scan:
  "for_loop sx ex (\<lambda>this_x. for_loop sy ey (\<lambda>this_y result.
      case get_loc c this_x this_y of
        Some current \<Rightarrow>
          if owner (deref current) \<noteq> 0 then insert (owner (deref current)) result
          else result
      | None \<Rightarrow> result)) R
   = R \<union> (\<Union>i\<in>{sx..<ex}. \<Union>j\<in>{sy..<ey}. cell_owner c i j)"
proof -
  have body: "(\<lambda>this_y result.
      case get_loc c this_x this_y of
        Some current \<Rightarrow>
          if owner (deref current) \<noteq> 0 then insert (owner (deref current)) result
          else result
      | None \<Rightarrow> result) = (\<lambda>this_y result. result \<union> cell_owner c this_x this_y)" for this_x
    by (intro ext) (auto simp: cell_owner_def split: option.splits)
  have inner: "for_loop sy ey (\<lambda>this_y result. result \<union> cell_owner c this_x this_y)
      = (\<lambda>result. result \<union> (\<Union>j\<in>{sy..<ey}. cell_owner c this_x j))" for this_x
    by (intro ext) (rule for_loop_union)
  show ?thesis unfolding body inner by (rule for_loop_union)
qed

lemma get_users_with_los_at_scan:
  "get_users_with_los_at c x y =
     (case clamp c (x - los_radius c) (y - los_radius c) (x + los_radius c) (y + los_radius c) of
        (sx, sy, ex, ey) \<Rightarrow> \<Union>i\<in>{sx..<ex}. \<Union>j\<in>{sy..<ey}. cell_owner c i j)"
  unfolding get_users_with_los_at_def owners_scan by (simp split: prod.splits)


text \<open>
  \<open>get_in_area\<close> in terms of the cells it scans: columns from the clamped \<open>x\<close> up
  to the clamped \<open>end_x\<close>, rows from the clamped \<open>end_y\<close> minus the \<open>height\<close> that
  was passed in up to the clamped \<open>end_y\<close>.
\<close>

lemma get_in_area_miss:
  assumes "clamp c x y (x + w) (y + h) = (sx, sy, ex, ey)"
    and "\<And>i j. sx \<le> i \<Longrightarrow> i < ex \<Longrightarrow> ey - h \<le> j \<Longrightarrow> j < ey \<Longrightarrow> root_hit c k i j = None"
  shows "get_in_area c x y w h k = None"
  unfolding get_in_area_def assms(1) using assms(2) by (simp add: root_scan_None)

lemma get_in_area_hit:
  assumes "clamp c x y (x + w) (y + h) = (sx, sy, ex, ey)"
    and "sx \<le> i" "i < ex" "ey - h \<le> j" "j < ey" "root_hit c k i j \<noteq> None"
  shows "get_in_area c x y w h k \<noteq> None"
  unfolding get_in_area_def assms(1) using assms(2-) by (simp add: root_scan_found)

lemma get_in_area_from:
  assumes "clamp c x y (x + w) (y + h) = (sx, sy, ex, ey)"
    and "get_in_area c x y w h k = Some v"
  shows "\<exists>i j. sx \<le> i \<and> i < ex \<and> ey - h \<le> j \<and> j < ey \<and> root_hit c k i j = Some v"
proof -
  from assms(2)
  have "for_loop sx ex (\<lambda>x. for_loop (ey - h) ey (\<lambda>y. collect_root c x y)) (\<lambda>_. None) k = Some v"
    by (simp add: get_in_area_def assms(1))
  then show ?thesis by (rule root_scan_Some [rotated]) simp
qed

lemma root_hit45:
  "root_hit cache45 k i j =
     (if i = 9 \<and> j = 9 \<and> k = 5 then Some (deref O5)
      else if i = 0 \<and> j = 3 \<and> k = 4 then Some (deref O4) else None)"
  by (simp add: root_hit_def cache45_fields is_root_object_def O4_def O5_def)

lemma corner_found: "get_in_area cache45 0 5 1 6 4 = Some (deref O4)"
proof -
  have cl: "clamp cache45 0 5 (0 + 1) (5 + 6) = (0, 5, 1, 9)"
    by (simp add: clamp_def cache45_fields)
  have "get_in_area cache45 0 5 1 6 4 \<noteq> None"
    by (rule get_in_area_hit [OF cl, of 0 3]) (simp_all add: root_hit45)
  then obtain v where v: "get_in_area cache45 0 5 1 6 4 = Some v" by blast
  from get_in_area_from [OF cl v] have "v = deref O4"
    by (auto simp: root_hit45 split: if_splits)
  with v show ?thesis by simp
qed

section \<open>Index consistency\<close>

text \<open>
  C2. The specification states: after any sequence of adds and removes, an object is in the owner
  index exactly when its owner is not 0, and no index holds an object that is not in
  the registry. The code at the unowned object \<open>P3 = {id 3, owner 0}\<close>, added to the
  empty cache and removed again: \<open>add_internal\<close> files it under owner 0,
  \<open>remove_internal\<close> skips the owner index when the owner is 0, so afterwards the
  registry has no entry for id 3 while the owner index still holds the pointer under 0
  and \<open>get_by_owner 0\<close> still returns the object. For an object without a position
  the public add and remove are these two functions.
\<close>

theorem unowned_object_stays_in_owner_index:
  "id_idx (remove_internal P3 (add_internal P3 cache0)) 3 = None
   \<and> owner_idx (remove_internal P3 (add_internal P3 cache0)) 0 = Some [P3]
   \<and> get_by_id (remove_internal P3 (add_internal P3 cache0)) 3 = None
   \<and> get_by_owner (remove_internal P3 (add_internal P3 cache0)) 0 3 = Some (deref P3)
   \<and> remove_object P3 (snd (add_object P3 cache0)) = remove_internal P3 (add_internal P3 cache0)"
  by (simp add: P3_def cache0_def new_cache_def set_bounds_def add_internal_def remove_internal_def
      owner_slot_def get_by_id_def get_by_owner_def emplace_def add_object_def remove_object_def Let_def)

section \<open>Area queries\<close>

text \<open>
  C3. The specification states: \<open>get_in_area x y width height\<close> returns exactly the objects whose
  root cell lies in the rectangle clamped to the bounds. The code, with bounds
  \<open>(0, 0, 10, 10)\<close>, \<open>O4\<close> at (0, 3) and \<open>O5\<close> at (9, 9): the query
  \<open>(0, 5, 1, 6)\<close> returns \<open>O4\<close>, whose row 3 is below the rectangle's first row 5
  (the rows scanned start at the clamped \<open>end_y\<close> minus the unclamped \<open>height\<close>); the
  query \<open>(9, 9, 1, 1)\<close>, a rectangle inside the bounds whose only cell holds \<open>O5\<close>,
  returns nothing for id 5, and neither does the query \<open>(0, 0, 10, 10)\<close> for the whole
  bounds (the clamped \<open>end_x\<close> is \<open>end_x - 1\<close> and the loops stop before it).
\<close>

theorem get_in_area_scan_mismatch:
  "get_in_area cache45 0 5 1 6 4 = Some (deref O4) \<and> obj_y (deref O4) < 5
   \<and> get_at_location cache45 9 9 = Some (deref O5)
   \<and> is_location_in_bounds cache45 9 9 1 1
   \<and> get_in_area cache45 9 9 1 1 5 = None
   \<and> get_in_area cache45 0 0 10 10 5 = None"
proof -
  have a: "get_in_area cache45 9 9 1 1 5 = None"
    by (rule get_in_area_miss [of _ _ _ _ _ 9 9 9 9]) (simp_all add: clamp_def cache45_fields)
  have b: "get_in_area cache45 0 0 10 10 5 = None"
    by (rule get_in_area_miss [of _ _ _ _ _ 0 0 9 9])
       (simp_all add: clamp_def cache45_fields root_hit45)
  have c: "get_at_location cache45 9 9 = Some (deref O5)"
    by (simp add: get_at_location_def cache45_fields)
  have d: "is_location_in_bounds cache45 9 9 1 1"
    by (simp add: is_location_in_bounds_def cache45_fields)
  have e: "obj_y (deref O4) < 5" by (simp add: O4_def)
  from corner_found a b c d e show ?thesis by simp
qed

text \<open>
  C4. The specification states: a query whose rectangle exceeds the bounds returns what the query of
  the clamped rectangle returns. The code at the query \<open>(0, 5, 1, 6)\<close> on the same
  cache: \<open>clamp\<close> gives columns 0 to 1 and rows 5 to 9, and the result differs from
  that of the clamped rectangle, both when the lowered upper edge 9 is taken as the end
  of the loop (height 4) and when it is taken as the last row (height 5).
\<close>

theorem get_in_area_clamped_differs:
  "clamp cache45 0 5 (0 + 1) (5 + 6) = (0, 5, 1, 9)
   \<and> get_in_area cache45 0 5 1 6 \<noteq> get_in_area cache45 0 5 (1 - 0) (9 - 5)
   \<and> get_in_area cache45 0 5 1 6 \<noteq> get_in_area cache45 0 5 (1 - 0) (9 - 5 + 1)"
proof -
  have cl: "clamp cache45 0 5 (0 + 1) (5 + 6) = (0, 5, 1, 9)"
    by (simp add: clamp_def cache45_fields)
  have a: "get_in_area cache45 0 5 (1 - 0) (9 - 5) 4 = None"
    by (rule get_in_area_miss [of _ _ _ _ _ 0 5 1 9])
       (simp_all add: clamp_def cache45_fields root_hit45)
  have b: "get_in_area cache45 0 5 (1 - 0) (9 - 5 + 1) 4 = None"
    by (rule get_in_area_miss [of _ _ _ _ _ 0 5 1 9])
       (simp_all add: clamp_def cache45_fields root_hit45)
  have "get_in_area cache45 0 5 1 6 \<noteq> get_in_area cache45 0 5 (1 - 0) (9 - 5)"
    using corner_found a by (metis option.distinct(1))
  moreover have "get_in_area cache45 0 5 1 6 \<noteq> get_in_area cache45 0 5 (1 - 0) (9 - 5 + 1)"
    using corner_found b by (metis option.distinct(1))
  ultimately show ?thesis using cl by simp
qed

section \<open>Line of sight\<close>

text \<open>
  C8. The specification states: \<open>get_users_with_los_at x y\<close> is the set of non-zero owners with an
  object in a cell within \<open>los_radius\<close> of \<open>(x, y)\<close> on each axis, in both directions;
  in the scenario, the query at (6, 6) gives \<open>{7}\<close>. The code, radius 2: the scenario's
  query does give \<open>{7}\<close>, and so does the query at (7, 7), two cells above \<open>O1\<close>; but
  the query at (3, 3), two cells below \<open>O1\<close>, gives no owner. With \<open>O6\<close> of owner 8
  placed at (3, 3), \<open>get_in_owner_los\<close> shows \<open>O6\<close> to owner 7 while the query at
  (3, 3) does not list owner 7. At the last cell of the bounds, (9, 9), the query does
  not list the owner of the object in that very cell.
\<close>

theorem get_users_with_los_at_asymmetric:
  "get_users_with_los_at cache1 6 6 = {7}
  \<and> get_users_with_los_at cache1 7 7 = {7}
  \<and> get_users_with_los_at cache1 3 3 = {}
  \<and> get_users_with_los_at cache16 3 3 = {8}
  \<and> get_in_owner_los cache16 7 6 = Some (deref O6)
  \<and> get_at_location cache45 9 9 = Some (deref O5)
  \<and> get_users_with_los_at cache45 9 9 = {}"
proof -
  have a: "get_users_with_los_at cache1 6 6 = {7}"
    by (auto simp: get_users_with_los_at_scan clamp_def cache1_fields cell_owner_def O1_def
        split: if_splits)
  have b: "get_users_with_los_at cache1 7 7 = {7}"
    by (auto simp: get_users_with_los_at_scan clamp_def cache1_fields cell_owner_def O1_def
        split: if_splits)
  have c: "get_users_with_los_at cache1 3 3 = {}"
    by (auto simp: get_users_with_los_at_scan clamp_def cache1_fields cell_owner_def O1_def
        split: if_splits)
  have d: "get_users_with_los_at cache16 3 3 = {8}"
    by (auto simp: get_users_with_los_at_scan clamp_def cache16_fields cell_owner_def O1_def
        O6_def split: if_splits)
  have hit: "root_hit cache16 6 i j = (if i = 3 \<and> j = 3 then Some (deref O6) else None)" for i j
    by (simp add: root_hit_def cache16_fields is_root_object_def O1_def O6_def)
  have los: "get_in_owner_los cache16 7 =
      for_loop 3 7 (\<lambda>x. for_loop 3 7 (\<lambda>y. collect_root cache16 x y)) (\<lambda>_. None)"
    by (simp add: get_in_owner_los_def cache16_fields upcast_def clamp_def O1_def)
  have "get_in_owner_los cache16 7 6 \<noteq> None"
    unfolding los by (rule root_scan_found [of _ 3 _ _ 3]) (simp_all add: hit)
  then obtain v where v: "get_in_owner_los cache16 7 6 = Some v" by blast
  then have "for_loop 3 7 (\<lambda>x. for_loop 3 7 (\<lambda>y. collect_root cache16 x y)) (\<lambda>_. None) 6 = Some v"
    by (simp add: los)
  then have "\<exists>x y. 3 \<le> x \<and> x < 7 \<and> 3 \<le> y \<and> y < 7 \<and> root_hit cache16 6 x y = Some v"
    by (intro root_scan_Some) simp_all
  then have "v = deref O6" by (auto simp: hit split: if_splits)
  with v have e: "get_in_owner_los cache16 7 6 = Some (deref O6)" by simp
  have f: "get_at_location cache45 9 9 = Some (deref O5)"
    by (simp add: get_at_location_def cache45_fields)
  have g: "get_users_with_los_at cache45 9 9 = {}"
    by (auto simp: get_users_with_los_at_scan clamp_def cache45_fields cell_owner_def
        split: if_splits)
  from a b c d e f g show ?thesis by simp
qed

section \<open>Removing an absent object\<close>

text \<open>
  C9. The specification states: removing an object that is not in the cache changes no query result,
  \<open>is_user_present\<close> of its owner included. The code at \<open>P9 = {id 9, owner 7}\<close> and
  the empty cache: the registry has no id 9 and the owner index no owner 7, and after
  \<open>remove_internal\<close> the owner index has an entry for owner 7, so \<open>is_user_present 7\<close>
  has turned from false to true. For an object without a position the public remove
  is \<open>remove_internal\<close>.
\<close>

theorem remove_absent_creates_owner_entry:
  "get_by_id cache0 9 = None \<and> owner_idx cache0 7 = None
  \<and> \<not> is_user_present cache0 7
  \<and> is_user_present (remove_internal P9 cache0) 7
  \<and> remove_object P9 cache0 = remove_internal P9 cache0"
  by (simp add: P9_def cache0_def new_cache_def set_bounds_def remove_internal_def
      owner_slot_def get_by_id_def is_user_present_def remove_object_def Let_def)

section \<open>The guard of the updatable index\<close>

text \<open>
  The mutators leave the lock bookkeeping alone, the scope operations keep
  \<open>lock_holder\<close> a thread that owns the mutex, and \<open>add_internal\<close> appends to the
  updatable index.
\<close>

lemma grid_loops_lock:
  "lock_holder (for_loop i n (\<lambda>x. for_loop j m (\<lambda>y. set_loc x y v)) c) = lock_holder c"
  "mtx_owner (for_loop i n (\<lambda>x. for_loop j m (\<lambda>y. set_loc x y v)) c) = mtx_owner c"
  "updatable_idx (for_loop i n (\<lambda>x. for_loop j m (\<lambda>y. set_loc x y v)) c) = updatable_idx c"
proof -
  obtain g where g: "for_loop i n (\<lambda>x. for_loop j m (\<lambda>y. set_loc x y v)) c = c\<lparr>loc_idx := g\<rparr>"
    using set_loc_loops_frame by blast
  show "lock_holder (for_loop i n (\<lambda>x. for_loop j m (\<lambda>y. set_loc x y v)) c) = lock_holder c"
    "mtx_owner (for_loop i n (\<lambda>x. for_loop j m (\<lambda>y. set_loc x y v)) c) = mtx_owner c"
    "updatable_idx (for_loop i n (\<lambda>x. for_loop j m (\<lambda>y. set_loc x y v)) c) = updatable_idx c"
    unfolding g by simp_all
qed

lemma mutation_keeps_lock:
  assumes "\<not> is_scope_op op" and "cache_step op c = Some c'"
  shows "lock_holder c' = lock_holder c \<and> mtx_owner c' = mtx_owner c"
  using assms
  by (cases op)
     (auto simp: add_internal_def remove_internal_def add_internal_map_def remove_internal_map_def
        Let_def grid_loops_lock)

lemma cache_step_holder:
  assumes "cache_step op c = Some c'" and "\<forall>t. lock_holder c = Some t \<longrightarrow> mtx_owner c = Some t"
  shows "\<forall>t. lock_holder c' = Some t \<longrightarrow> mtx_owner c' = Some t"
proof (cases "is_scope_op op")
  case False
  with assms show ?thesis using mutation_keeps_lock [of op c c'] by simp
next
  case True
  with assms show ?thesis
    by (cases op)
       (auto simp: begin_update_def end_update_def lock_def unlock_def split: if_splits)
qed

lemma run_cache_holder:
  assumes "run_cache ops c = Some c'" and "\<forall>t. lock_holder c = Some t \<longrightarrow> mtx_owner c = Some t"
  shows "\<forall>t. lock_holder c' = Some t \<longrightarrow> mtx_owner c' = Some t"
  using assms
proof (induction ops arbitrary: c)
  case Nil
  then show ?case by simp
next
  case (Cons op ops)
  from Cons.prems(1) obtain c1 where c1: "cache_step op c = Some c1" "run_cache ops c1 = Some c'"
    by (auto split: option.splits)
  from cache_step_holder [OF c1(1) Cons.prems(2)] c1(2) show ?case
    by (rule Cons.IH [rotated])
qed

lemma run_mutations_lock:
  assumes "run_cache ms c = Some c'" and "list_all (\<lambda>op. \<not> is_scope_op op) ms"
  shows "lock_holder c' = lock_holder c"
  using assms
proof (induction ms arbitrary: c)
  case Nil
  then show ?case by simp
next
  case (Cons op ms)
  from Cons.prems(1) obtain c1 where c1: "cache_step op c = Some c1" "run_cache ms c1 = Some c'"
    by (auto split: option.splits)
  from Cons.prems(2) have "\<not> is_scope_op op" "list_all (\<lambda>op. \<not> is_scope_op op) ms" by simp_all
  with c1 Cons.IH [of c1] mutation_keeps_lock [of op c c1] show ?case by simp
qed

lemma run_adds_updatable:
  assumes "run_cache (map Add_internal ps) c = Some c'"
  shows "updatable_idx c' = updatable_idx c @ filter (\<lambda>p. updatable_of (deref p)) ps"
  using assms
proof (induction ps arbitrary: c)
  case Nil
  then show ?case by simp
next
  case (Cons p ps)
  from Cons.prems have "run_cache (map Add_internal ps) (add_internal p c) = Some c'" by simp
  from Cons.IH [OF this] show ?case by (simp add: add_internal_def)
qed

text \<open>
  C5. In every state that a sequence of scope operations and mutations reaches from
  a fresh cache: \<open>get_next_updatable\<close> called by a thread that does not own the mutex
  fails with \<open>SynchronizationViolation\<close>; called by the thread that has opened an
  update scope and has not closed it, whatever it added or removed since, it returns
  the entry of the updatable index at the position, or nothing past the end; and the
  updatable objects added in that scope follow the earlier ones in the order of their
  insertion.
\<close>

theorem get_next_updatable_guard:
  assumes "run_cache ops (new_cache sx sy w h r) = Some c"
  shows "(mtx_owner c \<noteq> Some t \<longrightarrow> get_next_updatable t i c = Inl SynchronizationViolation)
       \<and> (begin_update t x y w' h' c = Some c1
            \<and> list_all (\<lambda>op. \<not> is_scope_op op) ms \<and> run_cache ms c1 = Some c2 \<longrightarrow>
          get_next_updatable t i c2 =
            Inr (if i < length (updatable_idx c2) then Some (updatable_idx c2 ! i) else None))
       \<and> (begin_update t x y w' h' c = Some c1
            \<and> run_cache (map Add_internal ps) c1 = Some c3 \<longrightarrow>
          get_next_updatable t i c3 =
            Inr (let us = updatable_idx c @ filter (\<lambda>p. updatable_of (deref p)) ps
                 in if i < length us then Some (us ! i) else None))"
proof (intro conjI impI)
  have "\<forall>t. lock_holder (new_cache sx sy w h r) = Some t
          \<longrightarrow> mtx_owner (new_cache sx sy w h r) = Some t"
    by (simp add: new_cache_def set_bounds_def)
  with assms have inv: "\<forall>t. lock_holder c = Some t \<longrightarrow> mtx_owner c = Some t"
    by (rule run_cache_holder)
  assume "mtx_owner c \<noteq> Some t"
  with inv have "lock_holder c \<noteq> Some t" by auto
  then show "get_next_updatable t i c = Inl SynchronizationViolation"
    by (simp add: get_next_updatable_def)
next
  assume a: "begin_update t x y w' h' c = Some c1
            \<and> list_all (\<lambda>op. \<not> is_scope_op op) ms \<and> run_cache ms c1 = Some c2"
  then have "lock_holder c1 = Some t"
    by (auto simp: begin_update_def lock_def split: if_splits)
  moreover from a have "lock_holder c2 = lock_holder c1"
    using run_mutations_lock by blast
  ultimately show "get_next_updatable t i c2 =
            Inr (if i < length (updatable_idx c2) then Some (updatable_idx c2 ! i) else None)"
    by (simp add: get_next_updatable_def)
next
  assume a: "begin_update t x y w' h' c = Some c1
            \<and> run_cache (map Add_internal ps) c1 = Some c3"
  then have c1: "lock_holder c1 = Some t" "updatable_idx c1 = updatable_idx c"
    by (auto simp: begin_update_def lock_def split: if_splits)
  have "list_all (\<lambda>op. \<not> is_scope_op op) (map Add_internal ps)"
    by (simp add: list_all_iff)
  with a have "lock_holder c3 = lock_holder c1"
    using run_mutations_lock by blast
  moreover from a have "updatable_idx c3 = updatable_idx c1 @ filter (\<lambda>p. updatable_of (deref p)) ps"
    using run_adds_updatable by blast
  ultimately show "get_next_updatable t i c3 =
            Inr (let us = updatable_idx c @ filter (\<lambda>p. updatable_of (deref p)) ps
                 in if i < length us then Some (us ! i) else None)"
    using c1 by (simp add: get_next_updatable_def Let_def)
qed

lemma begin_update_cache0: "begin_update 1 0 0 10 10 cache0 = Some cache_locked"
  by (simp add: begin_update_def lock_def cache0_def cache_locked_def new_cache_def set_bounds_def)

theorem get_next_updatable_guard_witness:
  "run_cache [] (new_cache 0 0 10 10 2) = Some cache0
   \<and> mtx_owner cache0 \<noteq> Some 2
   \<and> get_next_updatable 2 0 cache0 = Inl SynchronizationViolation
   \<and> begin_update 1 0 0 10 10 cache0 = Some cache_locked
   \<and> run_cache (map Add_internal [U1, P9, U2]) cache_locked
       = Some (add_internal U2 (add_internal P9 (add_internal U1 cache_locked)))
   \<and> get_next_updatable 1 0 (add_internal U2 (add_internal P9 (add_internal U1 cache_locked)))
       = Inr (Some U1)
   \<and> get_next_updatable 1 1 (add_internal U2 (add_internal P9 (add_internal U1 cache_locked)))
       = Inr (Some U2)
   \<and> get_next_updatable 1 2 (add_internal U2 (add_internal P9 (add_internal U1 cache_locked)))
       = Inr None"
proof -
  let ?c3 = "add_internal U2 (add_internal P9 (add_internal U1 cache_locked))"
  have reach: "run_cache [] (new_cache 0 0 10 10 2) = Some cache0" by (simp add: cache0_def)
  have free: "mtx_owner cache0 \<noteq> Some 2"
    by (simp add: cache0_def new_cache_def set_bounds_def)
  have adds: "run_cache (map Add_internal [U1, P9, U2]) cache_locked = Some ?c3" by simp
  have ups: "updatable_idx cache0 = []" by (simp add: cache0_def new_cache_def set_bounds_def)
  note g = get_next_updatable_guard [OF reach, where ?c1.0 = cache_locked and ps = "[U1, P9, U2]"
      and ?c3.0 = ?c3 and x = 0 and y = 0 and w' = 10 and h' = 10]
  have a: "get_next_updatable 2 0 cache0 = Inl SynchronizationViolation"
    using g [of 2 0] free by simp
  have b: "get_next_updatable 1 0 ?c3 = Inr (Some U1)"
    using g [of 1 0] begin_update_cache0 adds by (simp add: ups U1_def U2_def P9_def)
  have c: "get_next_updatable 1 1 ?c3 = Inr (Some U2)"
    using g [of 1 1] begin_update_cache0 adds by (simp add: ups U1_def U2_def P9_def)
  have d: "get_next_updatable 1 2 ?c3 = Inr None"
    using g [of 1 2] begin_update_cache0 adds by (simp add: ups U1_def U2_def P9_def)
  from reach free a begin_update_cache0 adds b c d show ?thesis by simp
qed

section \<open>The request router\<close>

lemma type_13: "request_type 1 3 \<noteq> request_type 1 1" "request_type 1 1 \<noteq> request_type 1 3"
  by (simp_all add: request_type_def)

lemma node_a_fields:
  "conn_state node_a k = 0" "authenticated_clients node_a i = None" "area_id node_a = 0"
  "outgoing node_a = []"
  "unauthenticated_handlers node_a (request_type 1 1) = Some (\<lambda>_. h_login)"
  "unauthenticated_handlers node_a (request_type 1 3) = Some (\<lambda>_. h_busy)"
  "authenticated_handlers node_a (request_type 1 2) = Some (\<lambda>_. h_logout)"
  by (simp_all add: node_a_def new_node_def type_13)

text \<open>
  C6. The specification states: when the handler changes the identity, the connection is registered
  (0 to id) or deregistered and back at identity 0 (id to 0) before \<open>on_request\<close>
  returns, whatever the result code, the "no response" code included. The code: on
  \<open>node_a\<close> the request of type (1, 1) on the unauthenticated connection 5 reaches a
  handler that sets the identity to 42 and returns the "no response" code;
  \<open>on_request\<close> returns at once, the node is unchanged, nothing is registered under
  42 and \<open>send 42\<close> reaches no connection. On \<open>node_b\<close>, where connection 5 is
  registered as 42, the request of type (1, 2) reaches a handler that clears the
  identity and returns success; the connection is removed from the index, but its
  state still says 42: \<open>add_client\<close> writes the state of the connection and
  \<open>del_client\<close> does not.
\<close>

theorem no_response_skips_identity_update:
  "conn_state node_a 5 = 0
   \<and> lookup_handler node_a 0 (request_type 1 1) 0 = Some h_login
   \<and> process h_login [] 0 = Returned NoResponse 42
   \<and> on_request 5 0 1 1 [] [] node_a = (Result Request_no_response, [Code NoResponse], node_a)
   \<and> authenticated_clients node_a 42 = None
   \<and> send 42 [Bytes [1]] node_a = node_a
   \<and> conn_state node_b 5 = 42 \<and> authenticated_clients node_b 42 = Some [5]
   \<and> lookup_handler node_b 42 (request_type 1 2) 0 = Some h_logout
   \<and> process h_logout [] 42 = Returned Success 0
   \<and> fst (on_request 5 0 1 2 [] [] node_b) = Result Request_success
   \<and> authenticated_clients (snd (snd (on_request 5 0 1 2 [] [] node_b))) 42 = None
   \<and> conn_state (snd (snd (on_request 5 0 1 2 [] [] node_b))) 5 = 42"
proof -
  have b_fields: "conn_state node_b 5 = 42" "authenticated_clients node_b 42 = Some [5]"
    "area_id node_b = 0"
    "authenticated_handlers node_b (request_type 1 2) = Some (\<lambda>_. h_logout)"
    by (simp_all add: node_b_def add_client_def node_a_fields client_slot_def)
  have login: "on_request 5 0 1 1 [] [] node_a
      = (Result Request_no_response, [Code NoResponse], node_a)"
    by (simp add: on_request_def lookup_handler_def node_a_fields h_login_def)
  have logout: "on_request 5 0 1 2 [] [] node_b
      = (Result Request_success, [Code Success],
         node_b\<lparr>authenticated_clients := (authenticated_clients node_b)(42 := None)\<rparr>)"
    by (simp add: on_request_def lookup_handler_def b_fields h_logout_def update_identity_def
        del_client_def)
  show ?thesis
    unfolding login logout
    by (simp add: node_a_fields b_fields lookup_handler_def h_login_def h_logout_def send_def)
qed

text \<open>
  C7. When the processing step of the handler that serves the request signals a
  synchronization conflict, \<open>on_request\<close> returns the retry-later result, the response
  is the one passed in, with nothing written to it, and the node, its
  client-authentication index included, is unchanged.
\<close>

theorem on_request_retry_later:
  assumes "lookup_handler n (conn_state n client) (request_type category method) worker_num
             = Some handler"
    and "deserialize handler parameters"
    and "process handler parameters (conn_state n client) = Synchronization_exception"
  shows "on_request client worker_num category method parameters response n
           = (Result Request_retry_later, response, n)"
  using assms by (simp add: on_request_def Let_def)

theorem on_request_retry_later_witness:
  "lookup_handler node_a (conn_state node_a 5) (request_type 1 3) 0 = Some h_busy
   \<and> deserialize h_busy [] \<and> process h_busy [] (conn_state node_a 5) = Synchronization_exception
   \<and> on_request 5 0 1 3 [] [Bytes [1]] node_a = (Result Request_retry_later, [Bytes [1]], node_a)"
proof -
  have a: "lookup_handler node_a (conn_state node_a 5) (request_type 1 3) 0 = Some h_busy"
    by (simp add: lookup_handler_def node_a_fields)
  have b: "deserialize h_busy []" by (simp add: h_busy_def)
  have c: "process h_busy [] (conn_state node_a 5) = Synchronization_exception"
    by (simp add: h_busy_def)
  from a b c on_request_retry_later [OF a b c, of "[Bytes [1]]"] show ?thesis by simp
qed

text \<open>
  Registration never touches key 0 of the index, and neither does \<open>start\<close>.
\<close>

lemma add_client_zero_free:
  assumes "authenticated_clients n 0 = None"
  shows "authenticated_clients (add_client i k n) 0 = None"
  using assms by (simp add: add_client_def)

lemma del_client_zero_free:
  assumes "authenticated_clients n 0 = None" and "del_client i k n = Inr n'"
  shows "authenticated_clients n' 0 = None"
  using assms by (auto simp: del_client_def split: if_splits option.splits)

lemma run_clients_zero_free:
  assumes "run_clients ops n0 = Inr n" and "authenticated_clients n0 0 = None"
  shows "authenticated_clients n 0 = None"
  using assms
proof (induction ops n0 rule: run_clients.induct)
  case (1 n)
  then show ?case by simp
next
  case (2 i k ops n)
  then show ?case by (simp add: add_client_zero_free)
next
  case (3 i k ops n0)
  from "3.prems"(1) obtain n' where n': "del_client i k n0 = Inr n'" "run_clients ops n' = Inr n"
    by (auto split: sum.splits)
  from del_client_zero_free [OF "3.prems"(2) n'(1)] n' "3.IH" show ?case by simp
qed

lemma start_zero_free: "authenticated_clients (start b (new_node a)) 0 = None"
  by (simp add: start_def new_node_def send_to_broker_def)

text \<open>
  C10. From a node whose index has no key 0, after any sequence of \<open>add_client\<close> and
  \<open>del_client\<close> calls that return, the index has no key 0; \<open>add_client\<close> with
  identity 0 leaves the node as it is, \<open>del_client\<close> with identity 0 returns normally
  and leaves the node as it is (also when the area id is 0), and \<open>send\<close> to identity
  0 enqueues nothing.
\<close>

theorem zero_never_registered:
  assumes "authenticated_clients n0 0 = None" and "run_clients ops n0 = Inr n"
  shows "authenticated_clients n 0 = None
       \<and> add_client 0 connection n = n
       \<and> del_client 0 connection n = Inr n
       \<and> send 0 payload n = n"
proof -
  have "authenticated_clients n 0 = None"
    using assms(2,1) by (rule run_clients_zero_free)
  then show ?thesis by (simp add: add_client_def del_client_def send_def)
qed

theorem zero_never_registered_witness:
  "authenticated_clients node_s 0 = None
   \<and> run_clients [Add_client 0 5, Add_client 42 5, Del_client 0 5, Del_client 42 5] node_s
       = Inr node_t
   \<and> authenticated_clients node_t 0 = None
   \<and> add_client 0 7 node_t = node_t
   \<and> del_client 0 7 node_t = Inr node_t
   \<and> send 0 [Bytes [1]] node_t = node_t"
proof -
  have free: "authenticated_clients node_s 0 = None"
    unfolding node_s_def by (rule start_zero_free)
  have s_fields: "area_id node_s = 3" "authenticated_clients node_s 42 = None"
    by (simp_all add: node_s_def start_def new_node_def send_to_broker_def)
  have run: "run_clients [Add_client 0 5, Add_client 42 5, Del_client 0 5, Del_client 42 5] node_s
       = Inr node_t"
    by (simp add: node_t_def add_client_def del_client_def client_slot_def s_fields)
  from free run zero_never_registered [OF free run, of 7 "[Bytes [1]]"] show ?thesis by simp
qed

end
